theory Spec2Isabelle
  imports Main "HOL-Library.Word"
begin

section \<open>BackwardsTrace (source/server/backtrace.h)\<close>

text \<open>
  The class \<^verbatim>\<open>BackwardsTrace\<close> owns a fixed array of 64 raw addresses
  (\<^verbatim>\<open>void* stack_trace_[MaxStackDepth]\<close>) and a count (\<^verbatim>\<open>int stack_depth_{0}\<close>).
  \<^verbatim>\<open>capture\<close> and \<^verbatim>\<open>captureFrom\<close> fill them from the stack unwinder,
  \<^verbatim>\<open>logTrace\<close> and \<^verbatim>\<open>logFault\<close> write lines to the logger.

  The unwinder, the symbolizer, the formatting library and the logging macro are collaborators
  that the header only calls. The call stack seen by the unwinder and the symbol table are
  inputs of the model; the log is an explicit list of lines that every logging call extends.
\<close>

subsection \<open>Data\<close>

text \<open>A \<^verbatim>\<open>void*\<close> is an opaque 64-bit pattern: it is never dereferenced, only stored,
  handed to the symbolizer and printed.\<close>

type_synonym addr = "64 word"

text \<open>
  A slot of the array is \<open>None\<close> until something is stored in it: the constructor
  \<^verbatim>\<open>BackwardsTrace() {}\<close> leaves \<^verbatim>\<open>stack_trace_\<close> without an initializer, so its
  slots hold indeterminate values. \<^verbatim>\<open>stack_depth_\<close> is a C++ \<^verbatim>\<open>int\<close>; it only ever
  holds what the unwinder returns, and the loop counter compared with it is below it when it is
  incremented, so no arithmetic on it can overflow and \<open>int\<close> models it. The two
  fields keep their names without the trailing underscore, which a constant's name cannot end
  with.
\<close>

record BackwardsTrace =
  stack_trace :: "addr option list"
  stack_depth :: int

definition MaxStackDepth :: int where
  "MaxStackDepth = 64"

text \<open>The constructor: 64 slots with no value yet, \<^verbatim>\<open>stack_depth_{0}\<close>.\<close>

definition BackwardsTrace_new :: BackwardsTrace where
  "BackwardsTrace_new =
     \<lparr>stack_trace = replicate (nat MaxStackDepth) None, stack_depth = 0\<rparr>"

text \<open>
  What C++ leaves undefined is a value of the model: an index outside the array, and the
  use of a slot that was never written.
\<close>

datatype fault = OutOfBounds int | Indeterminate int

text \<open>The expression \<^verbatim>\<open>stack_trace_[i]\<close>.\<close>

definition read_frame :: "BackwardsTrace \<Rightarrow> int \<Rightarrow> fault + addr" where
  "read_frame t i =
     (if i < 0 \<or> int (length (stack_trace t)) \<le> i then Inl (OutOfBounds i)
      else case stack_trace t ! nat i of
             None \<Rightarrow> Inl (Indeterminate i)
           | Some a \<Rightarrow> Inr a)"

subsection \<open>The logging collaborator\<close>

text \<open>The severity levels of the logger; the header logs at \<^verbatim>\<open>critical\<close> only.\<close>

datatype severity = trace | debug | info | warn | error | critical

type_synonym log_line = "severity \<times> string"

text \<open>
  Modelled from the spec: the macro \<^verbatim>\<open>ENVOY_LOG\<close> of common/common/logger.h, which is
  not part of the header under study. The spec describes the logging collaborator as the
  component's sole output channel, which "receives formatted lines at a fixed severity":
  one call hands one line, with its severity, to the log. Whether the configured sink then
  prints it is outside the component.
\<close>

definition ENVOY_LOG :: "severity \<Rightarrow> string \<Rightarrow> log_line list \<Rightarrow> log_line list" where
  "ENVOY_LOG lvl msg sink = sink @ [(lvl, msg)]"

subsection \<open>Formatting of the \<^verbatim>\<open>{}\<close> fields\<close>

text \<open>
  Modelled from the spec: the formatting library behind \<^verbatim>\<open>ENVOY_LOG\<close> is not part of
  the header. The spec asks for the "frame index" and "the raw address" in the line: a
  \<^verbatim>\<open>{}\<close> field prints an \<^verbatim>\<open>int\<close> in decimal, a \<^verbatim>\<open>void*\<close> as \<^verbatim>\<open>0x\<close>
  and its value in lowercase hexadecimal, and a character string as it is.
\<close>

definition digit_char :: "nat \<Rightarrow> char" where
  "digit_char d = ''0123456789abcdef'' ! d"

fun dec_digits :: "nat \<Rightarrow> string" where
  "dec_digits n =
     (if n < 10 then [digit_char n] else dec_digits (n div 10) @ [digit_char (n mod 10)])"

fun hex_digits :: "nat \<Rightarrow> string" where
  "hex_digits n =
     (if n < 16 then [digit_char n] else hex_digits (n div 16) @ [digit_char (n mod 16)])"

declare dec_digits.simps [simp del]
declare hex_digits.simps [simp del]

definition fmt_int :: "int \<Rightarrow> string" where
  "fmt_int i = (if i < 0 then ''-'' @ dec_digits (nat (- i)) else dec_digits (nat i))"

definition fmt_ptr :: "addr \<Rightarrow> string" where
  "fmt_ptr a = ''0x'' @ hex_digits (unat a)"

subsection \<open>The stack unwinder\<close>

text \<open>
  Modelled from the spec: \<^verbatim>\<open>absl::GetStackTrace(result, max_depth, skip_count)\<close> is
  called, not defined, by the header. The spec's Frame Capturer "walks the current execution
  context and records a bounded sequence of raw program-counter addresses", innermost frame
  first, "skipping exactly one frame from the raw walk", and the count it returns is the number
  of addresses stored, at most \<^verbatim>\<open>max_depth\<close>. The raw walk \<open>raw\<close> is the list of
  program counters the unwinder recovers, starting with the frame of the function that calls
  the unwinder; it is empty when the walk cannot proceed. The function stores the frames it
  keeps in \<^verbatim>\<open>result[0..n)\<close>, leaves the other slots as they were, and returns \<open>n\<close>.

  Which machine frame the walk starts with is not written in the header. \<^verbatim>\<open>capture\<close> and
  \<^verbatim>\<open>captureFrom\<close> are defined in the class body, hence implicitly inline: the walk starts
  with a frame of \<^verbatim>\<open>capture\<close> where the compiled program has one, and with the frame of
  the function that calls \<^verbatim>\<open>capture\<close> where the call has been inlined. What lies below
  the outermost function of the program (the frames of the start-up code) is part of the walk
  as well. The walk is therefore an input, and no shape of it is assumed.
\<close>

definition GetStackTrace ::
  "addr list \<Rightarrow> addr option list \<Rightarrow> int \<Rightarrow> int \<Rightarrow> addr option list \<times> int" where
  "GetStackTrace raw result max_depth skip_count =
     (let kept = take (nat max_depth) (drop (nat skip_count) raw)
      in (map Some kept @ drop (length kept) result, int (length kept)))"

text \<open>
  Modelled from the spec: \<^verbatim>\<open>absl::GetStackTraceWithContext\<close>, "same postcondition, but
  walks the stack encoded in the supplied external execution context". The context is opaque to
  the component; the model's context is the raw walk the unwinder recovers through it. The last
  argument of the call is \<^verbatim>\<open>nullptr\<close>, so no count of dropped frames is stored.
\<close>

definition GetStackTraceWithContext ::
  "addr option list \<Rightarrow> int \<Rightarrow> int \<Rightarrow> addr list \<Rightarrow> addr option list \<times> int" where
  "GetStackTraceWithContext result max_depth skip_count uc =
     GetStackTrace uc result max_depth skip_count"

subsection \<open>The operations of the class\<close>

text \<open>\<^verbatim>\<open>capture()\<close>, run while the unwinder sees the raw walk \<open>raw\<close>.\<close>

definition capture :: "addr list \<Rightarrow> BackwardsTrace \<Rightarrow> BackwardsTrace" where
  "capture raw t =
     (case GetStackTrace raw (stack_trace t) MaxStackDepth 1 of
        (buf, n) \<Rightarrow> t\<lparr>stack_trace := buf, stack_depth := n\<rparr>)"

text \<open>\<^verbatim>\<open>captureFrom(context)\<close>; the argument \<open>uc\<close> stands for the source's \<^verbatim>\<open>context\<close>.\<close>

definition captureFrom :: "addr list \<Rightarrow> BackwardsTrace \<Rightarrow> BackwardsTrace" where
  "captureFrom uc t =
     (case GetStackTraceWithContext (stack_trace t) MaxStackDepth 1 uc of
        (buf, n) \<Rightarrow> t\<lparr>stack_trace := buf, stack_depth := n\<rparr>)"

text \<open>
  \<^verbatim>\<open>absl::Symbolize(pc, out, out_size)\<close> is a parameter of the model: given the address
  and the size of the buffer, it returns the success flag and the text left in \<^verbatim>\<open>out\<close>.
\<close>

type_synonym symbolizer = "addr \<Rightarrow> nat \<Rightarrow> bool \<times> string"

text \<open>
  The loop of \<^verbatim>\<open>logTrace\<close>, \<^verbatim>\<open>for (int i = 0; i < stack_depth_; ++i)\<close>, from the
  counter \<open>i\<close> on. The body reads \<^verbatim>\<open>stack_trace_[i]\<close> for the symbolizer and, when that
  fails, once more for the line; both reads give the same value.
\<close>

function logTrace_loop ::
  "symbolizer \<Rightarrow> BackwardsTrace \<Rightarrow> int \<Rightarrow> log_line list \<Rightarrow> fault + log_line list" where
  "logTrace_loop symbolize t i sink =
     (if i < stack_depth t then
        (case read_frame t i of
           Inl f \<Rightarrow> Inl f
         | Inr a \<Rightarrow>
             (case symbolize a 1024 of
                (success, out) \<Rightarrow>
                  if success then
                    logTrace_loop symbolize t (i + 1)
                      (ENVOY_LOG critical (''#'' @ fmt_int i @ '': '' @ out) sink)
                  else
                    logTrace_loop symbolize t (i + 1)
                      (ENVOY_LOG critical (''#'' @ fmt_int i @ '': '' @ fmt_ptr a) sink)))
      else Inr sink)"
  by pat_completeness auto
termination
  by (relation "measure (\<lambda>(symbolize, t, i, sink). nat (stack_depth t - i))") auto

declare logTrace_loop.simps [simp del]

text \<open>\<^verbatim>\<open>logTrace()\<close>: the header line, then the loop. The method is not \<^verbatim>\<open>const\<close>,
  so the model returns the object with the log.\<close>

definition logTrace ::
  "symbolizer \<Rightarrow> BackwardsTrace \<Rightarrow> log_line list \<Rightarrow> fault + BackwardsTrace \<times> log_line list" where
  "logTrace symbolize t sink =
     (case logTrace_loop symbolize t 0 (ENVOY_LOG critical ''Backtrace:'' sink) of
        Inl f \<Rightarrow> Inl f
      | Inr sink' \<Rightarrow> Inr (t, sink'))"

text \<open>\<^verbatim>\<open>logFault(signame, addr)\<close>.\<close>

definition logFault ::
  "string \<Rightarrow> addr \<Rightarrow> BackwardsTrace \<Rightarrow> log_line list \<Rightarrow> BackwardsTrace \<times> log_line list" where
  "logFault signame a t sink =
     (t, ENVOY_LOG critical
           (''Caught '' @ signame @ '', suspect faulting address '' @ fmt_ptr a) sink)"

subsection \<open>Sequences of calls on one object\<close>

text \<open>
  A caller constructs the object and then calls its four public methods in any order. A call
  of \<^verbatim>\<open>capture\<close> or \<^verbatim>\<open>captureFrom\<close> carries what the unwinder sees at that moment.
  A run stops at the first fault.
\<close>

datatype call =
    Capture "addr list"
  | CaptureFrom "addr list"
  | LogTrace
  | LogFault string addr

fun invoke ::
  "symbolizer \<Rightarrow> call \<Rightarrow> BackwardsTrace \<times> log_line list
     \<Rightarrow> fault + BackwardsTrace \<times> log_line list" where
  "invoke symbolize (Capture raw) (t, sink) = Inr (capture raw t, sink)"
| "invoke symbolize (CaptureFrom uc) (t, sink) = Inr (captureFrom uc t, sink)"
| "invoke symbolize LogTrace (t, sink) = logTrace symbolize t sink"
| "invoke symbolize (LogFault signame a) (t, sink) = Inr (logFault signame a t sink)"

fun run ::
  "symbolizer \<Rightarrow> call list \<Rightarrow> BackwardsTrace \<times> log_line list
     \<Rightarrow> fault + BackwardsTrace \<times> log_line list" where
  "run symbolize [] st = Inr st"
| "run symbolize (c # cs) st =
     (case invoke symbolize c st of
        Inl f \<Rightarrow> Inl f
      | Inr st' \<Rightarrow> run symbolize cs st')"

text \<open>The two rendering methods.\<close>

fun is_render :: "call \<Rightarrow> bool" where
  "is_render LogTrace = True"
| "is_render (LogFault signame a) = True"
| "is_render (Capture raw) = False"
| "is_render (CaptureFrom uc) = False"

subsection \<open>The data model and the rendered line, in the words of the specification\<close>

text \<open>
  The invariant of a Trace: \<open>0 \<le> depth \<le> MaxDepth\<close>, a buffer of capacity \<open>MaxDepth\<close>, and
  a stored address in each of the slots below \<open>depth\<close>.
\<close>

definition valid_trace :: "BackwardsTrace \<Rightarrow> bool" where
  "valid_trace t \<longleftrightarrow>
     0 \<le> stack_depth t \<and> stack_depth t \<le> MaxStackDepth \<and>
     length (stack_trace t) = nat MaxStackDepth \<and>
     None \<notin> set (take (nat (stack_depth t)) (stack_trace t))"

text \<open>
  The line of frame \<open>k\<close> holding address \<open>a\<close>: critical severity, "frame index, then either
  the resolved symbol string (on success) or the raw address (on resolution failure)".
\<close>

definition frame_line :: "symbolizer \<Rightarrow> nat \<Rightarrow> addr \<Rightarrow> log_line" where
  "frame_line symbolize k a =
     (critical,
      ''#'' @ fmt_int (int k) @ '': '' @
        (if fst (symbolize a 1024) then snd (symbolize a 1024) else fmt_ptr a))"

section \<open>Properties of the operations\<close>

subsection \<open>The rendering loop on defined frames\<close>

lemma read_frame_defined:
  assumes "0 \<le> i" "i < stack_depth t" "nat (stack_depth t) \<le> length (stack_trace t)"
    "None \<notin> set (take (nat (stack_depth t)) (stack_trace t))"
  shows "read_frame t i = Inr (the (stack_trace t ! nat i))"
proof -
  have lt: "nat i < nat (stack_depth t)" using assms by simp
  then have in_len: "nat i < length (stack_trace t)" using assms by simp
  have "take (nat (stack_depth t)) (stack_trace t) ! nat i = stack_trace t ! nat i"
    using lt by simp
  moreover have "take (nat (stack_depth t)) (stack_trace t) ! nat i
      \<in> set (take (nat (stack_depth t)) (stack_trace t))"
    using lt in_len by (intro nth_mem) simp
  ultimately have "stack_trace t ! nat i \<noteq> None" using assms(4) by metis
  then show ?thesis using assms(1) in_len by (auto simp: read_frame_def)
qed

lemma logTrace_loop_defined:
  assumes "nat (stack_depth t) \<le> length (stack_trace t)"
    "None \<notin> set (take (nat (stack_depth t)) (stack_trace t))" "0 \<le> i"
  shows "logTrace_loop symbolize t i sink =
     Inr (sink @ map (\<lambda>k. frame_line symbolize k (the (stack_trace t ! k)))
                   [nat i..<nat (stack_depth t)])"
  using assms
proof (induction symbolize t i sink rule: logTrace_loop.induct)
  case (1 symbolize t i sink)
  show ?case
  proof (cases "i < stack_depth t")
    case False
    then show ?thesis by (simp add: logTrace_loop.simps)
  next
    case True
    have rd: "read_frame t i = Inr (the (stack_trace t ! nat i))"
      using read_frame_defined [OF "1.prems"(3) True "1.prems"(1) "1.prems"(2)] .
    have range: "[nat i..<nat (stack_depth t)] = nat i # [nat (i + 1)..<nat (stack_depth t)]"
    proof -
      have "nat (i + 1) = Suc (nat i)" using "1.prems"(3) by linarith
      moreover have "nat i < nat (stack_depth t)" using True "1.prems"(3) by linarith
      ultimately show ?thesis by (simp add: upt_conv_Cons)
    qed
    obtain success out where sy: "symbolize (the (stack_trace t ! nat i)) 1024 = (success, out)"
      by (cases "symbolize (the (stack_trace t ! nat i)) 1024")
    show ?thesis
    proof (cases success)
      case True
      note succ = this
      have "logTrace_loop symbolize t i sink =
          logTrace_loop symbolize t (i + 1)
            (ENVOY_LOG critical (''#'' @ fmt_int i @ '': '' @ out) sink)"
        using \<open>i < stack_depth t\<close> rd sy succ by (subst logTrace_loop.simps) simp
      also have "\<dots> = Inr (ENVOY_LOG critical (''#'' @ fmt_int i @ '': '' @ out) sink @
           map (\<lambda>k. frame_line symbolize k (the (stack_trace t ! k)))
             [nat (i + 1)..<nat (stack_depth t)])"
        using "1.IH"(1) [OF \<open>i < stack_depth t\<close> rd sy [symmetric] succ] "1.prems" by simp
      finally show ?thesis
        using sy succ "1.prems"(3) by (simp add: range ENVOY_LOG_def frame_line_def)
    next
      case False
      note fail = this
      have "logTrace_loop symbolize t i sink =
          logTrace_loop symbolize t (i + 1)
            (ENVOY_LOG critical
               (''#'' @ fmt_int i @ '': '' @ fmt_ptr (the (stack_trace t ! nat i))) sink)"
        using \<open>i < stack_depth t\<close> rd sy fail by (subst logTrace_loop.simps) simp
      also have "\<dots> = Inr (ENVOY_LOG critical
               (''#'' @ fmt_int i @ '': '' @ fmt_ptr (the (stack_trace t ! nat i))) sink @
           map (\<lambda>k. frame_line symbolize k (the (stack_trace t ! k)))
             [nat (i + 1)..<nat (stack_depth t)])"
        using "1.IH"(2) [OF \<open>i < stack_depth t\<close> rd sy [symmetric] fail] "1.prems" by simp
      finally show ?thesis
        using sy fail "1.prems"(3) by (simp add: range ENVOY_LOG_def frame_line_def)
    qed
  qed
qed

subsection \<open>Capture, the data model and runs\<close>

lemma capture_eq:
  "capture raw t =
     t\<lparr>stack_trace := map Some (take 64 (drop 1 raw)) @ drop (min (length raw - 1) 64) (stack_trace t),
       stack_depth := int (min (length raw - 1) 64)\<rparr>"
  by (simp add: capture_def GetStackTrace_def MaxStackDepth_def Let_def)

lemma captureFrom_eq_capture: "captureFrom uc t = capture uc t"
  by (simp add: captureFrom_def capture_def GetStackTraceWithContext_def)

lemma stack_depth_capture: "stack_depth (capture raw t) = int (min (length raw - 1) 64)"
  by (simp add: capture_eq)

lemma stack_trace_capture:
  "stack_trace (capture raw t) =
     map Some (take 64 (drop 1 raw)) @ drop (min (length raw - 1) 64) (stack_trace t)"
  by (simp add: capture_eq)

lemma take_depth_capture:
  "take (nat (stack_depth (capture raw t))) (stack_trace (capture raw t)) =
     map Some (take 64 (drop 1 raw))"
  by (simp add: stack_depth_capture stack_trace_capture)

text \<open>
  On every raw walk: the depth is the number of frames after the first, capped at
  \<open>MaxStackDepth\<close>, and slot \<open>k\<close> below the depth holds frame \<open>k + 1\<close> of the walk. The
  one frame skipped is the first of the walk, whichever function it belongs to.
\<close>

lemma capture_any_walk:
  "stack_depth (capture raw t) = min (int (length (drop 1 raw))) MaxStackDepth \<and>
   (\<forall>k < nat (stack_depth (capture raw t)).
      stack_trace (capture raw t) ! k = Some (raw ! Suc k))"
proof -
  have d: "stack_depth (capture raw t) = int (min (length raw - 1) 64)"
    by (simp add: stack_depth_capture)
  have "stack_trace (capture raw t) ! k = Some (raw ! Suc k)"
    if less: "k < min (length raw - 1) 64" for k
  proof (cases raw)
    case Nil
    then show ?thesis using less by simp
  next
    case (Cons a rest)
    then show ?thesis using less by (simp add: stack_trace_capture nth_append)
  qed
  then show ?thesis using d by (auto simp: MaxStackDepth_def)
qed

text \<open>
  Where the walk does start with a frame \<open>self\<close> of \<^verbatim>\<open>capture\<close>, on top of the calling
  context \<open>callers\<close>, the frame skipped is that one: the depth is the number of callers capped
  at 64 and slot \<open>k\<close> holds the \<open>k\<close>-th caller.
\<close>

lemma capture_with_own_frame:
  "stack_depth (capture (self # callers) t) = min (int (length callers)) MaxStackDepth \<and>
   (\<forall>k < nat (stack_depth (capture (self # callers) t)).
      stack_trace (capture (self # callers) t) ! k = Some (callers ! k))"
  using capture_any_walk [of "self # callers" t] by simp

text \<open>
  Where the call of \<^verbatim>\<open>capture\<close> has been inlined, the walk starts with the return address in
  the caller, and the caller is the frame skipped: the first slot holds the caller's caller.
\<close>

lemma capture_without_own_frame:
  "stack_depth (capture (ret_caller # ret_next # rest) t) =
     min (int (length (ret_next # rest))) MaxStackDepth \<and>
   stack_trace (capture (ret_caller # ret_next # rest) t) ! 0 = Some ret_next"
  by (simp add: stack_depth_capture stack_trace_capture MaxStackDepth_def)

lemma valid_trace_new: "valid_trace BackwardsTrace_new"
  by (simp add: valid_trace_def BackwardsTrace_new_def MaxStackDepth_def)

lemma valid_trace_capture:
  assumes "length (stack_trace t) = nat MaxStackDepth"
  shows "valid_trace (capture raw t)"
proof -
  have "None \<notin> set (map Some (take 64 (drop 1 raw)))" by auto
  then show ?thesis
    using assms unfolding valid_trace_def take_depth_capture
    by (auto simp: stack_depth_capture stack_trace_capture MaxStackDepth_def)
qed

lemma logTrace_defined:
  assumes "nat (stack_depth t) \<le> length (stack_trace t)"
    "None \<notin> set (take (nat (stack_depth t)) (stack_trace t))"
  shows "logTrace symbolize t sink =
     Inr (t, sink @ (critical, ''Backtrace:'') #
               map (\<lambda>k. frame_line symbolize k (the (stack_trace t ! k)))
                 [0..<nat (stack_depth t)])"
  unfolding logTrace_def
  by (simp add: logTrace_loop_defined [OF assms] ENVOY_LOG_def)

lemma logTrace_valid:
  assumes "valid_trace t"
  shows "logTrace symbolize t sink =
     Inr (t, sink @ (critical, ''Backtrace:'') #
               map (\<lambda>k. frame_line symbolize k (the (stack_trace t ! k)))
                 [0..<nat (stack_depth t)])"
proof -
  have len: "nat (stack_depth t) \<le> length (stack_trace t)"
    using assms unfolding valid_trace_def by linarith
  have def: "None \<notin> set (take (nat (stack_depth t)) (stack_trace t))"
    using assms by (simp add: valid_trace_def)
  show ?thesis
    unfolding logTrace_def
    by (simp add: logTrace_loop_defined [OF len def] ENVOY_LOG_def)
qed

lemma invoke_valid:
  assumes "valid_trace t"
  shows "\<exists>t' sink'. invoke symbolize c (t, sink) = Inr (t', sink') \<and> valid_trace t'"
proof (cases c)
  case (Capture raw)
  have "length (stack_trace t) = nat MaxStackDepth"
    using assms by (simp add: valid_trace_def)
  then show ?thesis using Capture by (simp add: valid_trace_capture)
next
  case (CaptureFrom uc)
  have "length (stack_trace t) = nat MaxStackDepth"
    using assms by (simp add: valid_trace_def)
  then show ?thesis
    using CaptureFrom by (simp add: captureFrom_eq_capture valid_trace_capture)
next
  case LogTrace
  then show ?thesis using assms by (simp add: logTrace_valid)
next
  case (LogFault signame a)
  then show ?thesis using assms by (simp add: logFault_def)
qed

lemma run_valid:
  assumes "valid_trace t"
  shows "\<exists>t' sink'. run symbolize calls (t, sink) = Inr (t', sink') \<and> valid_trace t'"
  using assms
proof (induction calls arbitrary: t sink)
  case Nil
  then show ?case by simp
next
  case (Cons c calls)
  obtain t1 sink1 where step: "invoke symbolize c (t, sink) = Inr (t1, sink1)"
    and v1: "valid_trace t1"
    using invoke_valid [OF Cons.prems] by blast
  obtain t' sink' where "run symbolize calls (t1, sink1) = Inr (t', sink')" "valid_trace t'"
    using Cons.IH [OF v1] by blast
  then show ?case using step by simp
qed

lemma read_frame_cong:
  assumes "take n (stack_trace t) = take n (stack_trace t')" "i < int n"
  shows "read_frame t i = read_frame t' i"
proof (cases "0 \<le> i")
  case False
  then show ?thesis by (simp add: read_frame_def)
next
  case True
  then have lt: "nat i < n" using assms(2) by linarith
  have "length (take n (stack_trace t)) = length (take n (stack_trace t'))"
    using assms(1) by simp
  then have "nat i < length (stack_trace t) \<longleftrightarrow> nat i < length (stack_trace t')"
    using lt by (simp add: min_def split: if_splits)
  then have len: "int (length (stack_trace t)) \<le> i \<longleftrightarrow> int (length (stack_trace t')) \<le> i"
    using True by linarith
  have "take n (stack_trace t) ! nat i = take n (stack_trace t') ! nat i"
    using assms(1) by simp
  then have nth: "stack_trace t ! nat i = stack_trace t' ! nat i"
    using lt by simp
  show ?thesis
    unfolding read_frame_def using len nth by simp
qed

lemma logTrace_loop_cong:
  assumes "stack_depth t = stack_depth t'"
    "take (nat (stack_depth t)) (stack_trace t) = take (nat (stack_depth t)) (stack_trace t')"
  shows "logTrace_loop symbolize t i sink = logTrace_loop symbolize t' i sink"
  using assms
proof (induction symbolize t i sink rule: logTrace_loop.induct)
  case (1 symbolize t i sink)
  show ?case
  proof (cases "i < stack_depth t")
    case False
    then show ?thesis using "1.prems"(1) by (simp add: logTrace_loop.simps)
  next
    case True
    have rd: "read_frame t i = read_frame t' i"
      using read_frame_cong [OF "1.prems"(2)] True by simp
    show ?thesis
    proof (cases "read_frame t i")
      case (Inl f)
      have "read_frame t' i = Inl f" using rd Inl by simp
      then show ?thesis
        using True Inl "1.prems"(1)
        by (simp add: logTrace_loop.simps [of symbolize t i] logTrace_loop.simps [of symbolize t' i])
    next
      case (Inr a)
      have rd': "read_frame t' i = Inr a" using rd Inr by simp
      obtain success out where sy: "symbolize a 1024 = (success, out)"
        by (cases "symbolize a 1024")
      show ?thesis
      proof (cases success)
        case True
        have "logTrace_loop symbolize t (i + 1)
                (ENVOY_LOG critical (''#'' @ fmt_int i @ '': '' @ out) sink) =
              logTrace_loop symbolize t' (i + 1)
                (ENVOY_LOG critical (''#'' @ fmt_int i @ '': '' @ out) sink)"
          using "1.IH"(1) [OF \<open>i < stack_depth t\<close> Inr sy [symmetric] True] "1.prems" by simp
        then show ?thesis
          using \<open>i < stack_depth t\<close> rd' Inr sy True "1.prems"(1)
          by (simp add: logTrace_loop.simps [of symbolize t i]
                logTrace_loop.simps [of symbolize t' i])
      next
        case False
        have "logTrace_loop symbolize t (i + 1)
                (ENVOY_LOG critical (''#'' @ fmt_int i @ '': '' @ fmt_ptr a) sink) =
              logTrace_loop symbolize t' (i + 1)
                (ENVOY_LOG critical (''#'' @ fmt_int i @ '': '' @ fmt_ptr a) sink)"
          using "1.IH"(2) [OF \<open>i < stack_depth t\<close> Inr sy [symmetric] False] "1.prems" by simp
        then show ?thesis
          using \<open>i < stack_depth t\<close> rd' Inr sy False "1.prems"(1)
          by (simp add: logTrace_loop.simps [of symbolize t i]
                logTrace_loop.simps [of symbolize t' i])
      qed
    qed
  qed
qed



lemma take_depth_junk:
  assumes "valid_trace t"
  shows "take (nat (stack_depth t)) (take (nat (stack_depth t)) (stack_trace t) @ junk) =
         take (nat (stack_depth t)) (stack_trace t)"
proof -
  have "nat (stack_depth t) \<le> length (stack_trace t)"
    using assms unfolding valid_trace_def by linarith
  then show ?thesis by simp
qed

subsection \<open>Rendering leaves the object alone\<close>


lemma logTrace_loop_extends:
  "logTrace_loop symbolize t i sink = Inr sink' \<Longrightarrow> \<exists>lines. sink' = sink @ lines"
proof (induction symbolize t i sink rule: logTrace_loop.induct)
  case (1 symbolize t i sink)
  show ?case
  proof (cases "i < stack_depth t")
    case False
    then show ?thesis using "1.prems" by (simp add: logTrace_loop.simps)
  next
    case True
    then obtain a where rd: "read_frame t i = Inr a"
      using "1.prems" by (cases "read_frame t i") (simp_all add: logTrace_loop.simps)
    obtain success out where sy: "symbolize a 1024 = (success, out)"
      by (cases "symbolize a 1024")
    show ?thesis
    proof (cases success)
      case True
      have "logTrace_loop symbolize t (i + 1)
              (ENVOY_LOG critical (''#'' @ fmt_int i @ '': '' @ out) sink) = Inr sink'"
        using "1.prems" \<open>i < stack_depth t\<close> rd sy True
        by (simp add: logTrace_loop.simps [of symbolize t i])
      from "1.IH"(1) [OF \<open>i < stack_depth t\<close> rd sy [symmetric] True this]
      show ?thesis by (auto simp: ENVOY_LOG_def)
    next
      case False
      have "logTrace_loop symbolize t (i + 1)
              (ENVOY_LOG critical (''#'' @ fmt_int i @ '': '' @ fmt_ptr a) sink) = Inr sink'"
        using "1.prems" \<open>i < stack_depth t\<close> rd sy False
        by (simp add: logTrace_loop.simps [of symbolize t i])
      from "1.IH"(2) [OF \<open>i < stack_depth t\<close> rd sy [symmetric] False this]
      show ?thesis by (auto simp: ENVOY_LOG_def)
    qed
  qed
qed

lemma logTrace_frame:
  assumes "logTrace symbolize t sink = Inr (t', sink')"
  shows "t' = t \<and> (\<exists>lines. sink' = sink @ lines)"
proof -
  from assms obtain s where loop: "logTrace_loop symbolize t 0
      (ENVOY_LOG critical ''Backtrace:'' sink) = Inr s" and res: "t' = t" "sink' = s"
    by (auto simp: logTrace_def split: sum.splits)
  from logTrace_loop_extends [OF loop] obtain lines where
    "s = ENVOY_LOG critical ''Backtrace:'' sink @ lines" by blast
  then show ?thesis using res by (simp add: ENVOY_LOG_def)
qed

lemma invoke_render_frame:
  assumes "is_render c" "invoke symbolize c (t, sink) = Inr (t', sink')"
  shows "t' = t \<and> (\<exists>lines. sink' = sink @ lines)"
proof (cases c)
  case LogTrace
  then show ?thesis using assms(2) logTrace_frame by simp
next
  case (LogFault signame a)
  then show ?thesis using assms(2) by (auto simp: logFault_def ENVOY_LOG_def)
qed (use assms(1) in simp_all)

lemma run_render_frame:
  assumes "\<forall>c \<in> set calls. is_render c" "run symbolize calls (t, sink) = Inr (t', sink')"
  shows "t' = t \<and> (\<exists>lines. sink' = sink @ lines)"
  using assms
proof (induction calls arbitrary: sink)
  case Nil
  then show ?case by simp
next
  case (Cons c calls)
  from Cons.prems(2) obtain t1 sink1 where
    step: "invoke symbolize c (t, sink) = Inr (t1, sink1)" and
    rest: "run symbolize calls (t1, sink1) = Inr (t', sink')"
    by (auto split: sum.splits)
  have "is_render c" using Cons.prems(1) by simp
  from invoke_render_frame [OF this step] obtain l1 where t1: "t1 = t" and s1: "sink1 = sink @ l1"
    by blast
  have "\<forall>c \<in> set calls. is_render c" using Cons.prems(1) by simp
  from Cons.IH [OF this rest [unfolded t1]] obtain l2 where "t' = t" "sink' = sink1 @ l2"
    by blast
  then show ?case using s1 by simp
qed

section \<open>The claims\<close>


text \<open>
  Claim C2. On a trace that satisfies the data model, \<^verbatim>\<open>logTrace()\<close> returns without a fault
  and appends to the log the header and then, for \<open>k = 0, 1, \<dots>, depth - 1\<close> in this order,
  exactly one line for frame \<open>k\<close>: critical severity, the index \<open>k\<close>, then the symbol when the
  symbolizer succeeds on the address in slot \<open>k\<close> and the address itself when it fails. A failed
  resolution changes the text of the line and nothing else.
\<close>

theorem logTrace_lines:
  assumes "valid_trace t"
  shows "logTrace symbolize t sink =
     Inr (t, sink @ (critical, ''Backtrace:'') #
               map (\<lambda>k. frame_line symbolize k (the (stack_trace t ! k)))
                 [0..<nat (stack_depth t)])"
  using assms by (rule logTrace_valid)

text \<open>A trace of two frames, the first resolved to \<^verbatim>\<open>g()\<close>, the second unresolved.\<close>

theorem logTrace_lines_witness:
  "valid_trace (capture [0x4000, 0x3000, 0x2000] BackwardsTrace_new) \<and>
   logTrace (\<lambda>a n. if a = 0x3000 then (True, ''g()'') else (False, []))
     (capture [0x4000, 0x3000, 0x2000] BackwardsTrace_new) [] =
   Inr (capture [0x4000, 0x3000, 0x2000] BackwardsTrace_new,
        [(critical, ''Backtrace:''), (critical, ''#0: g()''), (critical, ''#1: 0x2000'')])"
proof -
  have v: "valid_trace (capture [0x4000, 0x3000, 0x2000] BackwardsTrace_new)"
    by (rule valid_trace_capture) (simp add: BackwardsTrace_new_def)
  have d: "stack_depth (capture [0x4000, 0x3000, 0x2000] BackwardsTrace_new) = 2"
    by (simp add: stack_depth_capture)
  have f: "stack_trace (capture [0x4000, 0x3000, 0x2000] BackwardsTrace_new) ! 0 = Some 0x3000"
    "stack_trace (capture [0x4000, 0x3000, 0x2000] BackwardsTrace_new) ! Suc 0 = Some 0x2000"
    by (simp_all add: stack_trace_capture)
  have up: "[0..<2] = [0, Suc 0]" by (simp add: upt_rec)
  have h: "hex_digits 8192 = ''2000''" by (simp add: hex_digits.simps digit_char_def)
  have z: "dec_digits 0 = ''0''" "dec_digits (Suc 0) = ''1''"
    by (simp_all add: dec_digits.simps digit_char_def)
  show ?thesis
    using v logTrace_lines [OF v, of "\<lambda>a n. if a = 0x3000 then (True, ''g()'') else (False, [])" "[]"]
    by (simp add: d f up frame_line_def fmt_int_def fmt_ptr_def h z)
qed

text \<open>
  Claim C3. After the constructor and any sequence of \<^verbatim>\<open>capture\<close>, \<^verbatim>\<open>captureFrom\<close>,
  \<^verbatim>\<open>logTrace\<close> and \<^verbatim>\<open>logFault\<close> calls, the run has reached a state without a fault,
  its depth lies between 0 and \<open>MaxStackDepth = 64\<close>, and \<^verbatim>\<open>logTrace\<close> in that state uses
  no slot at an index from the depth on: it writes the same lines when everything stored from
  that index on is replaced by arbitrary contents \<open>junk\<close> (which may be shorter than the array
  or hold no value at all).
\<close>

theorem reachable_depth_bounded:
  "\<exists>t sink out.
     run symbolize calls (BackwardsTrace_new, sink0) = Inr (t, sink) \<and>
     0 \<le> stack_depth t \<and> stack_depth t \<le> MaxStackDepth \<and> MaxStackDepth = 64 \<and>
     logTrace symbolize t sink = Inr (t, out) \<and>
     (\<forall>junk. logTrace symbolize
                (t\<lparr>stack_trace := take (nat (stack_depth t)) (stack_trace t) @ junk\<rparr>) sink =
              Inr (t\<lparr>stack_trace := take (nat (stack_depth t)) (stack_trace t) @ junk\<rparr>, out))"
proof -
  obtain t sink where r: "run symbolize calls (BackwardsTrace_new, sink0) = Inr (t, sink)"
    and v: "valid_trace t"
    using run_valid [OF valid_trace_new] by blast
  obtain out where lt: "logTrace symbolize t sink = Inr (t, out)"
    using logTrace_valid [OF v] by blast
  have "logTrace symbolize
          (t\<lparr>stack_trace := take (nat (stack_depth t)) (stack_trace t) @ junk\<rparr>) sink =
        Inr (t\<lparr>stack_trace := take (nat (stack_depth t)) (stack_trace t) @ junk\<rparr>, out)"
    for junk
  proof -
    let ?u = "t\<lparr>stack_trace := take (nat (stack_depth t)) (stack_trace t) @ junk\<rparr>"
    have su: "stack_trace ?u = take (nat (stack_depth t)) (stack_trace t) @ junk" by simp
    have tk: "take (nat (stack_depth t)) (stack_trace t) =
              take (nat (stack_depth t)) (stack_trace ?u)"
      unfolding su using take_depth_junk [OF v, of junk] by (rule sym)
    have du: "stack_depth t = stack_depth ?u" by simp
    have "logTrace_loop symbolize t 0 (ENVOY_LOG critical ''Backtrace:'' sink) =
          logTrace_loop symbolize ?u 0 (ENVOY_LOG critical ''Backtrace:'' sink)"
      using du tk by (rule logTrace_loop_cong)
    then show ?thesis using lt by (auto simp: logTrace_def split: sum.splits)
  qed
  moreover have "0 \<le> stack_depth t" "stack_depth t \<le> MaxStackDepth"
    using v by (simp_all add: valid_trace_def)
  ultimately show ?thesis using r lt by (auto simp: MaxStackDepth_def)
qed

text \<open>A run with a capture, a rendering, a capture from a context and a fault line.\<close>

theorem reachable_depth_bounded_witness:
  "\<exists>t sink.
     run (\<lambda>a n. (False, []))
       [Capture [0x4000, 0x3000, 0x2000], LogTrace, CaptureFrom [0x4000], LogFault ''SIGSEGV'' 0]
       (BackwardsTrace_new, []) = Inr (t, sink) \<and>
     0 \<le> stack_depth t \<and> stack_depth t \<le> 64"
  using reachable_depth_bounded [of "\<lambda>a n. (False, [])"
      "[Capture [0x4000, 0x3000, 0x2000], LogTrace, CaptureFrom [0x4000], LogFault ''SIGSEGV'' 0]"
      "[]"]
  by (auto simp: MaxStackDepth_def)

text \<open>
  Claim C4. On a trace of depth 0, \<^verbatim>\<open>logTrace()\<close> appends the single line
  \<^verbatim>\<open>Backtrace:\<close> and no frame line; the freshly constructed object has depth 0 and is such
  a trace.
\<close>

theorem logTrace_empty:
  "(stack_depth t = 0 \<longrightarrow>
      logTrace symbolize t sink = Inr (t, sink @ [(critical, ''Backtrace:'')])) \<and>
   stack_depth BackwardsTrace_new = 0 \<and>
   logTrace symbolize BackwardsTrace_new sink =
     Inr (BackwardsTrace_new, sink @ [(critical, ''Backtrace:'')])"
  by (simp add: logTrace_def logTrace_loop.simps ENVOY_LOG_def BackwardsTrace_new_def)

text \<open>A capture that recovers only the frame of \<^verbatim>\<open>capture\<close> itself leaves depth 0.\<close>

theorem logTrace_empty_witness:
  "stack_depth (capture [0x4000] BackwardsTrace_new) = 0 \<and>
   logTrace (\<lambda>a n. (False, [])) (capture [0x4000] BackwardsTrace_new) [] =
     Inr (capture [0x4000] BackwardsTrace_new, [(critical, ''Backtrace:'')])"
  using logTrace_empty [of "capture [0x4000] BackwardsTrace_new" "\<lambda>a n. (False, [])" "[]"]
  by (simp add: stack_depth_capture)

text \<open>
  Claim C6. \<^verbatim>\<open>logFault(signame, addr)\<close> appends exactly one line, of critical severity,
  whose text holds the signal name and the printed address; it returns the object as it was, and
  the log it produces is the same for any two objects.
\<close>

theorem logFault_one_line:
  "logFault signame a t sink =
     (t, sink @ [(critical, ''Caught '' @ signame @ '', suspect faulting address '' @ fmt_ptr a)]) \<and>
   length (snd (logFault signame a t sink)) = length sink + 1 \<and>
   snd (logFault signame a t sink) = snd (logFault signame a t' sink)"
  by (simp add: logFault_def ENVOY_LOG_def)

text \<open>
  Claim C7. No sequence of calls on a constructed object ends in a fault: every run returns a
  state. When the unwinder recovers nothing, or nothing beyond the one frame that is skipped,
  \<^verbatim>\<open>capture\<close> and \<^verbatim>\<open>captureFrom\<close> set the depth to 0, and \<^verbatim>\<open>logTrace\<close> renders the
  result as the header line alone.
\<close>

theorem no_error_channel:
  "(\<exists>st. run symbolize calls (BackwardsTrace_new, sink0) = Inr st) \<and>
   (length raw \<le> 1 \<longrightarrow>
      stack_depth (capture raw t) = 0 \<and>
      stack_depth (captureFrom raw t) = 0 \<and>
      logTrace symbolize (capture raw t) sink =
        Inr (capture raw t, sink @ [(critical, ''Backtrace:'')]) \<and>
      logTrace symbolize (captureFrom raw t) sink =
        Inr (captureFrom raw t, sink @ [(critical, ''Backtrace:'')]))"
proof -
  have "\<exists>st. run symbolize calls (BackwardsTrace_new, sink0) = Inr st"
    using run_valid [OF valid_trace_new, of symbolize calls sink0] by blast
  moreover have "logTrace symbolize u sink = Inr (u, sink @ [(critical, ''Backtrace:'')])"
    if "stack_depth u = 0" for u
    using that by (simp add: logTrace_def logTrace_loop.simps ENVOY_LOG_def)
  moreover have "stack_depth (capture raw t) = 0" if "length raw \<le> 1"
    using that by (simp add: stack_depth_capture)
  ultimately show ?thesis by (simp add: captureFrom_eq_capture)
qed

text \<open>The walk that recovers no frame at all.\<close>

theorem no_error_channel_witness:
  "length ([] :: addr list) \<le> 1 \<and>
   stack_depth (capture [] BackwardsTrace_new) = 0 \<and>
   stack_depth (captureFrom [] BackwardsTrace_new) = 0 \<and>
   logTrace (\<lambda>a n. (False, [])) (capture [] BackwardsTrace_new) [] =
     Inr (capture [] BackwardsTrace_new, [(critical, ''Backtrace:'')]) \<and>
   (\<exists>st. run (\<lambda>a n. (False, [])) [CaptureFrom [], LogTrace, LogFault ''SIGSEGV'' 0]
           (BackwardsTrace_new, []) = Inr st)"
  using no_error_channel [of "\<lambda>a n. (False, [])" "[CaptureFrom [], LogTrace, LogFault ''SIGSEGV'' 0]"
      "[]" "[]" BackwardsTrace_new "[]"]
  by simp

text \<open>
  Claim C8. A second \<^verbatim>\<open>capture()\<close> from the same context changes nothing, and after any
  \<^verbatim>\<open>capture()\<close> the depth and the frames below it are those the current walk \<open>raw\<close> gives
  on any object: nothing of an earlier capture (here from \<open>raw'\<close>) is left in them.
\<close>

theorem capture_overwrites:
  "capture raw (capture raw t) = capture raw t \<and>
   stack_depth (capture raw (capture raw' t)) = stack_depth (capture raw t') \<and>
   take (nat (stack_depth (capture raw (capture raw' t))))
        (stack_trace (capture raw (capture raw' t))) =
   take (nat (stack_depth (capture raw t'))) (stack_trace (capture raw t'))"
proof -
  have "capture raw (capture raw t) = capture raw t"
    by (simp add: capture_eq)
  then show ?thesis
    unfolding take_depth_capture by (simp add: stack_depth_capture)
qed

text \<open>
  Claim C9. A sequence of \<^verbatim>\<open>logTrace\<close> and \<^verbatim>\<open>logFault\<close> calls returns the object it
  started from, frames and depth unchanged, and a log that extends the earlier one; on a trace
  that satisfies the data model it does return.
\<close>

theorem render_read_only:
  assumes "\<forall>c \<in> set calls. is_render c"
  shows "(\<forall>t' sink'. run symbolize calls (t, sink) = Inr (t', sink') \<longrightarrow>
            t' = t \<and> (\<exists>lines. sink' = sink @ lines)) \<and>
         (valid_trace t \<longrightarrow> (\<exists>lines. run symbolize calls (t, sink) = Inr (t, sink @ lines)))"
proof -
  have frame: "t' = t \<and> (\<exists>lines. sink' = sink @ lines)"
    if "run symbolize calls (t, sink) = Inr (t', sink')" for t' sink'
    using run_render_frame [OF assms that] .
  have "\<exists>lines. run symbolize calls (t, sink) = Inr (t, sink @ lines)" if vt: "valid_trace t"
  proof -
    obtain t' sink' where r: "run symbolize calls (t, sink) = Inr (t', sink')"
      using run_valid [OF vt] by blast
    with frame [OF r] show ?thesis by auto
  qed
  then show ?thesis using frame by blast
qed

text \<open>Three rendering calls after a capture of two frames.\<close>

theorem render_read_only_witness:
  "list_all is_render [LogTrace, LogFault ''SIGSEGV'' 0, LogTrace] \<and>
   valid_trace (capture [0x4000, 0x3000, 0x2000] BackwardsTrace_new) \<and>
   (\<exists>lines. run (\<lambda>a n. (False, [])) [LogTrace, LogFault ''SIGSEGV'' 0, LogTrace]
              (capture [0x4000, 0x3000, 0x2000] BackwardsTrace_new, []) =
            Inr (capture [0x4000, 0x3000, 0x2000] BackwardsTrace_new, [] @ lines))"
proof -
  have r: "\<forall>c \<in> set [LogTrace, LogFault ''SIGSEGV'' 0, LogTrace]. is_render c" by simp
  have v: "valid_trace (capture [0x4000, 0x3000, 0x2000] BackwardsTrace_new)"
    by (rule valid_trace_capture) (simp add: BackwardsTrace_new_def)
  have "\<exists>lines. run (\<lambda>a n. (False, [])) [LogTrace, LogFault ''SIGSEGV'' 0, LogTrace]
              (capture [0x4000, 0x3000, 0x2000] BackwardsTrace_new, []) =
            Inr (capture [0x4000, 0x3000, 0x2000] BackwardsTrace_new, [] @ lines)"
    using v render_read_only [OF r, of "\<lambda>a n. (False, [])"
        "capture [0x4000, 0x3000, 0x2000] BackwardsTrace_new" "[]"]
    by blast
  then show ?thesis using v by simp
qed

text \<open>
  Claim C10. Two runs of \<^verbatim>\<open>logTrace()\<close> with the same symbolizer, on traces of equal depth
  whose frames below the depth are equal, append the same sequence of lines, each to its own log.
\<close>

theorem logTrace_deterministic:
  assumes "valid_trace t" "stack_depth t = stack_depth t'"
    "take (nat (stack_depth t)) (stack_trace t) = take (nat (stack_depth t')) (stack_trace t')"
  shows "\<exists>lines. logTrace symbolize t sink = Inr (t, sink @ lines) \<and>
                 logTrace symbolize t' sink' = Inr (t', sink' @ lines)"
proof -
  have len: "nat (stack_depth t) \<le> length (stack_trace t)"
    using assms(1) unfolding valid_trace_def by linarith
  have def: "None \<notin> set (take (nat (stack_depth t)) (stack_trace t))"
    using assms(1) by (simp add: valid_trace_def)
  have "length (take (nat (stack_depth t')) (stack_trace t')) = nat (stack_depth t')"
    using assms(2,3) len by (metis length_take min.absorb2)
  then have len': "nat (stack_depth t') \<le> length (stack_trace t')" by simp
  have def': "None \<notin> set (take (nat (stack_depth t')) (stack_trace t'))"
    using def assms(3) by simp
  have "stack_trace t ! k = stack_trace t' ! k" if "k < nat (stack_depth t)" for k
  proof -
    have "take (nat (stack_depth t)) (stack_trace t) ! k =
          take (nat (stack_depth t)) (stack_trace t') ! k"
      using assms(2,3) by simp
    then show ?thesis using that by simp
  qed
  then have "map (\<lambda>k. frame_line symbolize k (the (stack_trace t ! k))) [0..<nat (stack_depth t)] =
        map (\<lambda>k. frame_line symbolize k (the (stack_trace t' ! k))) [0..<nat (stack_depth t')]"
    using assms(2) by simp
  then show ?thesis
    using logTrace_defined [OF len def, of symbolize sink]
      logTrace_defined [OF len' def', of symbolize sink'] by simp
qed

text \<open>A fresh object and one that held a deeper trace before, after the same capture.\<close>

theorem logTrace_deterministic_witness:
  "valid_trace (capture [0x4000, 0x3000] BackwardsTrace_new) \<and>
   (\<exists>lines.
      logTrace (\<lambda>a n. (False, [])) (capture [0x4000, 0x3000] BackwardsTrace_new) [] =
        Inr (capture [0x4000, 0x3000] BackwardsTrace_new, [] @ lines) \<and>
      logTrace (\<lambda>a n. (False, []))
        (capture [0x4000, 0x3000] (capture [0x4000, 0x3000, 0x2000, 0x1000] BackwardsTrace_new))
        [(critical, ''earlier'')] =
        Inr (capture [0x4000, 0x3000] (capture [0x4000, 0x3000, 0x2000, 0x1000] BackwardsTrace_new),
             [(critical, ''earlier'')] @ lines))"
proof -
  let ?t = "capture [0x4000, 0x3000] BackwardsTrace_new"
  let ?t' = "capture [0x4000, 0x3000] (capture [0x4000, 0x3000, 0x2000, 0x1000] BackwardsTrace_new)"
  have v: "valid_trace ?t"
    by (rule valid_trace_capture) (simp add: BackwardsTrace_new_def)
  have d: "stack_depth ?t = stack_depth ?t'" by (simp add: stack_depth_capture)
  have f: "take (nat (stack_depth ?t)) (stack_trace ?t) =
           take (nat (stack_depth ?t')) (stack_trace ?t')"
    unfolding take_depth_capture ..
  show ?thesis
    using v logTrace_deterministic [OF v d f, of "\<lambda>a n. (False, [])" "[]" "[(critical, ''earlier'')]"]
    by blast
qed

end
